theory Spec2Isabelle
  imports Main "HOL-Library.Sublist" "HOL-Library.AList"
begin

section \<open>Python strings\<close>

text \<open>
  A Python \<open>str\<close> is modelled as a \<open>string\<close> whose characters are read as the code
  points below 256. The character classes below are those of Python 3 on that range.
\<close>

definition isspace :: "char \<Rightarrow> bool" where
  \<comment> \<open>\<open>str.isspace\<close>: TAB..CR, FS..US, SPACE, NEL, NBSP\<close>
  "isspace c = (let n = (of_char c :: nat)
     in (9 \<le> n \<and> n \<le> 13) \<or> (28 \<le> n \<and> n \<le> 32) \<or> n = 133 \<or> n = 160)"

definition strip :: "string \<Rightarrow> string" where
  \<comment> \<open>\<open>s.strip()\<close>\<close>
  "strip s = rev (dropWhile isspace (rev (dropWhile isspace s)))"

definition lower_char :: "char \<Rightarrow> char" where
  "lower_char c = (let n = (of_char c :: nat)
     in if (65 \<le> n \<and> n \<le> 90) \<or> (192 \<le> n \<and> n \<le> 222 \<and> n \<noteq> 215)
        then char_of (n + 32) else c)"

definition lower :: "string \<Rightarrow> string" where
  \<comment> \<open>\<open>s.lower()\<close>\<close>
  "lower s = map lower_char s"

definition isdecimal :: "char \<Rightarrow> bool" where
  \<comment> \<open>the class \<open>\d\<close> of \<open>re\<close> on \<open>str\<close> patterns\<close>
  "isdecimal c = (let n = (of_char c :: nat) in 48 \<le> n \<and> n \<le> 57)"

definition isword :: "char \<Rightarrow> bool" where
  \<comment> \<open>the class \<open>\w\<close> of \<open>re\<close> on \<open>str\<close> patterns: \<open>str.isalnum\<close> or underscore\<close>
  "isword c = (let n = (of_char c :: nat)
     in (48 \<le> n \<and> n \<le> 57) \<or> (65 \<le> n \<and> n \<le> 90) \<or> n = 95 \<or> (97 \<le> n \<and> n \<le> 122)
        \<or> n = 170 \<or> n = 178 \<or> n = 179 \<or> n = 181 \<or> n = 185 \<or> n = 186
        \<or> (188 \<le> n \<and> n \<le> 190) \<or> (192 \<le> n \<and> n \<le> 214) \<or> (216 \<le> n \<and> n \<le> 246)
        \<or> (248 \<le> n \<and> n \<le> 255))"

fun join :: "string \<Rightarrow> string list \<Rightarrow> string" where
  \<comment> \<open>\<open>sep.join(xs)\<close>\<close>
  "join sep [] = []"
| "join sep [x] = x"
| "join sep (x # y # ys) = x @ sep @ join sep (y # ys)"

fun split :: "string \<Rightarrow> string \<Rightarrow> string \<Rightarrow> string list" where
  \<comment> \<open>\<open>s.split(sep)\<close> for a non-empty \<open>sep\<close>, as \<open>split sep [] s\<close>; the second
      argument is the piece read so far\<close>
  "split sep cur [] = [cur]"
| "split sep cur (c # cs) =
     (if sep \<noteq> [] \<and> prefix sep (c # cs)
      then cur # split sep [] (drop (length sep - 1) cs)
      else split sep (cur @ [c]) cs)"

definition digit_char :: "nat \<Rightarrow> char" where
  "digit_char d = char_of (48 + d)"

fun str_of_nat :: "nat \<Rightarrow> string" where
  \<comment> \<open>the decimal rendering of \<open>f"{i}"\<close> for \<open>i \<ge> 0\<close>\<close>
  "str_of_nat n =
     (if n < 10 then [digit_char n] else str_of_nat (n div 10) @ [digit_char (n mod 10)])"

declare str_of_nat.simps [simp del]

definition slice_to :: "int \<Rightarrow> 'a list \<Rightarrow> 'a list" where
  \<comment> \<open>\<open>xs[:n]\<close>: a negative \<open>n\<close> counts from the end\<close>
  "slice_to n xs = (if 0 \<le> n then take (nat n) xs else take (length xs - nat (- n)) xs)"

section \<open>The parsed XML\<close>

text \<open>
  An element is read only through its \<open>.text\<close> (absent for an empty element) and its
  \<open>xml:lang\<close> attribute. A record node carries what the XPath queries of
  \<open>extract_record\<close> and \<open>harvest\<close> return on it: the string values of the header's
  identifier, datestamp and status attribute, the \<open>setSpec\<close> elements, and the
  \<open>oai_dc:dc\<close> elements under \<open>metadata\<close>.
\<close>

record element =
  el_text :: "string option"
  el_lang :: "string option"

record dc_root =
  dc_title :: "element list"
  dc_subject :: "element list"
  dc_description :: "element list"
  dc_language :: "element list"
  dc_identifier :: "element list"
  dc_creator :: "element list"
  dc_date :: "element list"
  dc_rights :: "element list"
  dc_contributor :: "element list"

record oai_record =
  header_identifier :: string
  header_datestamp :: string
  header_status :: string
  header_setSpec :: "element list"
  metadata :: "dc_root list"

type_synonym row = "(string \<times> string) list"

section \<open>Helpers\<close>

fun texts :: "element list \<Rightarrow> string list" where
  "texts [] = []"
| "texts (n # ns) =
     (let t = strip (case el_text n of None \<Rightarrow> [] | Some s \<Rightarrow> s)
      in if t \<noteq> [] then t # texts ns else texts ns)"

definition join_texts :: "element list \<Rightarrow> string \<Rightarrow> string" where
  "join_texts nodes sep = join sep (texts nodes)"

definition word_boundary :: "char option \<Rightarrow> char option \<Rightarrow> bool" where
  \<comment> \<open>\<open>\b\<close> between two neighbours, \<open>None\<close> at either end of the string\<close>
  "word_boundary l r =
     ((case l of None \<Rightarrow> False | Some c \<Rightarrow> isword c)
        \<noteq> (case r of None \<Rightarrow> False | Some c \<Rightarrow> isword c))"

definition year_match :: "char option \<Rightarrow> string \<Rightarrow> bool" where
  \<comment> \<open>the pattern \<open>\b(18|19|20)\d{2}\b\<close> matches at the head of the string, after
      the character \<open>prev\<close>\<close>
  "year_match prev s =
     (case s of
        a # b # c # d # rest \<Rightarrow>
          word_boundary prev (Some a)
          \<and> ([a, b] = ''18'' \<or> [a, b] = ''19'' \<or> [a, b] = ''20'')
          \<and> isdecimal c \<and> isdecimal d
          \<and> word_boundary (Some d) (case rest of [] \<Rightarrow> None | e # _ \<Rightarrow> Some e)
      | _ \<Rightarrow> False)"

fun re_search_year :: "char option \<Rightarrow> string \<Rightarrow> string option" where
  \<comment> \<open>\<open>re.search\<close> of that pattern: the leftmost match\<close>
  "re_search_year prev [] = None"
| "re_search_year prev (c # cs) =
     (if year_match prev (c # cs) then Some (take 4 (c # cs))
      else re_search_year (Some c) cs)"

definition extract_year :: "string \<Rightarrow> string" where
  "extract_year date_str =
     (if date_str = [] then []
      else case re_search_year None date_str of Some m \<Rightarrow> m | None \<Rightarrow> [])"

definition truthy :: "string option \<Rightarrow> bool" where
  \<comment> \<open>the truth value of an optional string: \<open>None\<close> and the empty string are false\<close>
  "truthy v = (case v of None \<Rightarrow> False | Some s \<Rightarrow> s \<noteq> [])"

definition oai_params :: "string \<Rightarrow> string option \<Rightarrow> string option \<Rightarrow> (string \<times> string) list" where
  \<comment> \<open>the dict of request parameters, in insertion order\<close>
  "oai_params metadata_prefix set_spec token =
     (if truthy token then [(''verb'', ''ListRecords''), (''resumptionToken'', the token)]
      else (let p = [(''verb'', ''ListRecords''), (''metadataPrefix'', metadata_prefix)]
            in if truthy set_spec then AList.update ''set'' (the set_spec) p else p))"

definition has_open_access :: "dc_root \<Rightarrow> bool" where
  "has_open_access dc =
     list_ex (\<lambda>rv. lower (strip rv) = ''open access'') (texts (dc_rights dc))"

section \<open>Record extraction\<close>

fun derive_sets :: "string list \<Rightarrow> string \<times> string \<times> string \<Rightarrow> string \<times> string \<times> string" where
  \<comment> \<open>the loop \<open>for s in sets\<close> of \<open>extract_record\<close>, on the variables
      \<open>(set_ddc, set_etab, is_diffusable)\<close>\<close>
  "derive_sets [] v = v"
| "derive_sets (s # ss) (set_ddc, set_etab, is_diffusable) =
     (if prefix ''ddc:'' s then derive_sets ss (s, set_etab, is_diffusable)
      else if s = ''diffusable'' then derive_sets ss (set_ddc, set_etab, ''1'')
      else if CHR '':'' \<notin> set s \<and> s \<noteq> ''diffusable''
      then (if set_etab = [] then derive_sets ss (set_ddc, s, is_diffusable)
            else derive_sets ss (set_ddc, set_etab, is_diffusable))
      else derive_sets ss (set_ddc, set_etab, is_diffusable))"

definition contributor_key :: "nat \<Rightarrow> string" where
  \<comment> \<open>\<open>f"contributor_{i}"\<close>\<close>
  "contributor_key i = ''contributor_'' @ str_of_nat i"

definition xpath_description :: "string option \<Rightarrow> dc_root \<Rightarrow> element list" where
  \<comment> \<open>\<open>dc:description[@xml:lang='fr']\<close> for \<open>Some ''fr''\<close>,
      \<open>dc:description[not(@xml:lang)]\<close> for \<open>None\<close>\<close>
  "xpath_description l dc = filter (\<lambda>n. el_lang n = l) (dc_description dc)"

definition base_row :: "oai_record \<Rightarrow> row" where
  \<comment> \<open>the header part of \<open>extract_record\<close> and its dict literal \<open>row = {...}\<close>\<close>
  "base_row r =
     (let oai_id = strip (header_identifier r);
          datestamp = strip (header_datestamp r);
          sets = texts (header_setSpec r);
          setSpecs_raw = join '' | '' sets;
          (set_ddc, set_etab, is_diffusable) = derive_sets sets ([], [], ''0'')
      in [(''oai_id'', oai_id),
          (''setSpecs_raw'', setSpecs_raw),
          (''set_etab'', set_etab),
          (''set_ddc'', set_ddc),
          (''is_diffusable'', is_diffusable),
          (''title'', []),
          (''subject'', []),
          (''description_fr'', []),
          (''description_en'', []),
          (''language'', []),
          (''identifier'', []),
          (''creator'', []),
          (''date'', []),
          (''year'', []),
          (''rights'', [])])"

definition header_row :: "oai_record \<Rightarrow> int \<Rightarrow> row" where
  \<comment> \<open>the row after \<open>for i in range(1, max_contributors + 1)\<close>, before the metadata
      is looked at\<close>
  "header_row r max_contributors =
     fold (\<lambda>i row. AList.update (contributor_key (nat i)) [] row)
       [1..max_contributors] (base_row r)"

definition content_row :: "dc_root \<Rightarrow> row \<Rightarrow> row" where
  \<comment> \<open>the assignments of \<open>extract_record\<close> for a record that passed the filter, up
      to the descriptions\<close>
  "content_row dc row0 =
     (let row1 = AList.update ''rights'' (join_texts (dc_rights dc) '' | '') row0;
          row2 = AList.update ''title'' (join_texts (dc_title dc) '' | '') row1;
          row3 = AList.update ''language'' (join_texts (dc_language dc) '' | '') row2;
          row4 = AList.update ''identifier'' (join_texts (dc_identifier dc) '' | '') row3;
          row5 = AList.update ''creator'' (join_texts (dc_creator dc) '' | '') row4;
          row6 = AList.update ''subject'' (join_texts (dc_subject dc) '' | '') row5;
          date = join_texts (dc_date dc) '' | '';
          row7 = AList.update ''date'' date row6;
          first_date = (if date \<noteq> [] then strip (hd (split '' | '' [] date)) else []);
          row8 = AList.update ''year'' (extract_year first_date) row7;
          desc_fr = xpath_description (Some ''fr'') dc;
          desc_en = xpath_description (Some ''en'') dc;
          desc_nolang = xpath_description None dc;
          description_fr = join_texts desc_fr [CHR 10, CHR 10];
          row9 = AList.update ''description_fr'' description_fr row8;
          row10 = AList.update ''description_en'' (join_texts desc_en [CHR 10, CHR 10]) row9
      in if description_fr = [] \<and> desc_nolang \<noteq> []
         then AList.update ''description_fr'' (join_texts desc_nolang [CHR 10, CHR 10]) row10
         else row10)"

definition fill_row :: "dc_root \<Rightarrow> int \<Rightarrow> row \<Rightarrow> row" where
  \<comment> \<open>then the contributors, one column per occurrence\<close>
  "fill_row dc max_contributors row0 =
     (let contributors = texts (dc_contributor dc);
          kept = slice_to max_contributors contributors
      in fold (\<lambda>(idx, val) row. AList.update (contributor_key idx) val row)
           (zip [1..<Suc (length kept)] kept) (content_row dc row0))"

definition extract_record :: "oai_record \<Rightarrow> int \<Rightarrow> row \<times> bool" where
  "extract_record r max_contributors =
     (let row = header_row r max_contributors
      in case metadata r of
           [] \<Rightarrow> (row, False)
         | dc # _ \<Rightarrow>
             if \<not> has_open_access dc then (row, False)
             else (fill_row dc max_contributors row, True))"

section \<open>Harvest\<close>

text \<open>
  The endpoint is given by the responses it makes to the successive requests of one run.
  A response is an HTTP failure (\<open>requests.get\<close> or \<open>raise_for_status\<close> raises) or a
  body; a body is malformed (\<open>etree.fromstring\<close> raises) or parses to a document, read
  through the two XPath queries of \<open>parse_page\<close>. The requests issued are recorded in
  order. The CSV writer is an external sink: it is the list of the rows passed to
  \<open>writerow\<close>, in order, under the header \<open>fieldnames\<close>. The writer's own check
  (a \<open>DictWriter\<close> refuses a row with a key outside its header, which
  \<open>extract_record\<close> produces only for a negative \<open>max_contributors\<close>, see
  \<open>extract_record_keys\<close>) is outside the model. \<open>time.sleep\<close> has no effect on the
  state and is left out. A run that asks for more responses than are given ends as
  \<open>Pending\<close>.
\<close>

datatype error = TransportError | ParseError

record oai_page =
  page_records :: "oai_record list"
  page_resumptionToken :: "element list"

datatype content = Malformed | Document oai_page

datatype response = HTTPFailure | Content content

record config =
  set_spec :: "string option"
  metadata_prefix :: string
  max_pages :: "int option"
  max_contributors :: int

record harvest_state =
  written :: "row list"
  kept :: nat
  seen :: nat
  token :: "string option"
  page :: nat
  requests :: "(string \<times> string) list list"

datatype outcome =
    Done harvest_state
  | Raised error harvest_state
  | Pending harvest_state

fun final :: "outcome \<Rightarrow> harvest_state" where
  "final (Done st) = st"
| "final (Raised e st) = st"
| "final (Pending st) = st"

definition fieldnames :: "int \<Rightarrow> string list" where
  "fieldnames mc =
     [''oai_id'', ''setSpecs_raw'', ''set_etab'', ''set_ddc'', ''is_diffusable'',
      ''title'', ''subject'', ''description_fr'', ''description_en'',
      ''language'', ''identifier'', ''creator'', ''date'', ''year'', ''rights'']
     @ map (\<lambda>i. contributor_key (nat i)) [1..mc]"

definition parse_page :: "content \<Rightarrow> error + (oai_record list \<times> string)" where
  "parse_page xml_bytes =
     (case xml_bytes of
        Malformed \<Rightarrow> Inl ParseError
      | Document root \<Rightarrow>
          Inr (page_records root,
               (case page_resumptionToken root of
                  [] \<Rightarrow> []
                | el # _ \<Rightarrow> strip (case el_text el of None \<Rightarrow> [] | Some s \<Rightarrow> s))))"

fun process_records :: "int \<Rightarrow> oai_record list \<Rightarrow> harvest_state \<Rightarrow> harvest_state" where
  \<comment> \<open>the loop \<open>for rec in records\<close> of \<open>harvest\<close>\<close>
  "process_records mc [] st = st"
| "process_records mc (r # rs) st =
     (if strip (header_status r) = ''deleted'' then process_records mc rs st
      else (let (row, ok) = extract_record r mc;
                st1 = st\<lparr>seen := seen st + 1\<rparr>;
                st2 = (if ok then st1\<lparr>written := written st1 @ [row], kept := kept st1 + 1\<rparr>
                       else st1)
            in process_records mc rs st2))"

fun harvest_loop :: "config \<Rightarrow> response list \<Rightarrow> harvest_state \<Rightarrow> outcome" where
  \<comment> \<open>the loop \<open>while True\<close> of \<open>harvest\<close>; \<open>Pending\<close> when the loop asks for a
      response beyond the given ones\<close>
  "harvest_loop cfg [] st = Pending st"
| "harvest_loop cfg (r # rs) st =
     (let params = oai_params (metadata_prefix cfg) (set_spec cfg) (token st);
          st1 = st\<lparr>requests := requests st @ [params]\<rparr>
      in case r of
           HTTPFailure \<Rightarrow> Raised TransportError st1
         | Content c \<Rightarrow>
             (case parse_page c of
                Inl e \<Rightarrow> Raised e st1
              | Inr (records, tok) \<Rightarrow>
                  (let st2 = process_records (max_contributors cfg) records (st1\<lparr>token := Some tok\<rparr>);
                       st3 = st2\<lparr>page := page st2 + 1\<rparr>
                   in if (case max_pages cfg of None \<Rightarrow> False | Some m \<Rightarrow> m \<le> int (page st3))
                      then Done st3
                      else if \<not> truthy (token st3) then Done st3
                      else harvest_loop cfg rs st3)))"

definition harvest :: "config \<Rightarrow> response list \<Rightarrow> outcome" where
  "harvest cfg responses =
     harvest_loop cfg responses
       \<lparr>written = [], kept = 0, seen = 0, token = None, page = 0, requests = []\<rparr>"

abbreviation returned_records :: "response \<Rightarrow> oai_record list" where
  \<comment> \<open>the records \<open>parse_page\<close> gives for a response; none when the fetch fails\<close>
  "returned_records resp \<equiv>
     (case resp of
        HTTPFailure \<Rightarrow> []
      | Content c \<Rightarrow> (case parse_page c of Inl e \<Rightarrow> [] | Inr (records, tok) \<Rightarrow> records))"

abbreviation returned_token :: "response \<Rightarrow> string" where
  \<comment> \<open>the cursor \<open>parse_page\<close> gives for a response; empty when the fetch fails\<close>
  "returned_token resp \<equiv>
     (case resp of
        HTTPFailure \<Rightarrow> []
      | Content c \<Rightarrow> (case parse_page c of Inl e \<Rightarrow> [] | Inr (records, tok) \<Rightarrow> tok))"

section \<open>Example inputs\<close>

text \<open>
  The record of the scenario of the specification (rights \<open>Open Access\<close>, title
  \<open>Thesis A\<close>, two contributors), with its status, category tags, descriptions and
  dates left open, and a configuration with three contributor columns.
\<close>

abbreviation ex_text :: "string \<Rightarrow> element" where
  "ex_text s \<equiv> \<lparr>el_text = Some s, el_lang = None\<rparr>"

abbreviation ex_lang :: "string \<Rightarrow> string \<Rightarrow> element" where
  "ex_lang l s \<equiv> \<lparr>el_text = Some s, el_lang = Some l\<rparr>"

abbreviation ex_dc :: "element list \<Rightarrow> element list \<Rightarrow> dc_root" where
  "ex_dc descriptions dates \<equiv>
     \<lparr>dc_title = [ex_text ''Thesis A''], dc_subject = [], dc_description = descriptions,
      dc_language = [], dc_identifier = [], dc_creator = [], dc_date = dates,
      dc_rights = [ex_text ''Open Access''],
      dc_contributor = [ex_text ''Ada'', ex_text ''Bob'']\<rparr>"

abbreviation ex_record :: "string \<Rightarrow> dc_root list \<Rightarrow> oai_record" where
  "ex_record status md \<equiv>
     \<lparr>header_identifier = ''oai:1'', header_datestamp = ''2020-01-01'', header_status = status,
      header_setSpec = [ex_text ''diffusable'', ex_text ''ddc:620''], metadata = md\<rparr>"

abbreviation ex_page :: "oai_record list \<Rightarrow> element list \<Rightarrow> oai_page" where
  "ex_page records tokens \<equiv> \<lparr>page_records = records, page_resumptionToken = tokens\<rparr>"

abbreviation ex_config :: "int option \<Rightarrow> config" where
  "ex_config limit \<equiv>
     \<lparr>set_spec = Some ''diffusable'', metadata_prefix = ''oai_dc'', max_pages = limit,
      max_contributors = 3\<rparr>"

section \<open>Strings and keys\<close>

lemma dropWhile_trailing_keeps_head:
  assumes "t = [] \<or> \<not> P (hd t)"
  shows "dropWhile P (rev (dropWhile P (rev t))) = rev (dropWhile P (rev t))"
proof -
  define u where "u = rev (dropWhile P (rev t))"
  show ?thesis
  proof (cases "u = []")
    case True
    then show ?thesis unfolding u_def[symmetric] by simp
  next
    case False
    obtain ys where "rev t = ys @ dropWhile P (rev t)"
      by (metis takeWhile_dropWhile_id)
    then have t: "t = u @ rev ys"
      unfolding u_def by (metis rev_append rev_rev_ident)
    with False have "t \<noteq> []" and "hd u = hd t" by auto
    with assms have "\<not> P (hd u)" by simp
    with False have "dropWhile P u = u" by (cases u) auto
    then show ?thesis unfolding u_def .
  qed
qed

lemma strip_idem: "strip (strip s) = strip s"
proof -
  have "dropWhile isspace s = [] \<or> \<not> isspace (hd (dropWhile isspace s))"
    by (metis hd_dropWhile)
  then have "dropWhile isspace (rev (dropWhile isspace (rev (dropWhile isspace s))))
      = rev (dropWhile isspace (rev (dropWhile isspace s)))"
    by (rule dropWhile_trailing_keeps_head[where P = isspace and t = "dropWhile isspace s"])
  then show ?thesis by (simp add: strip_def)
qed

lemma texts_eq: "texts ns = filter (\<lambda>t. t \<noteq> []) (map (\<lambda>n. strip (case el_text n of None \<Rightarrow> [] | Some s \<Rightarrow> s)) ns)"
  by (induction ns) (auto simp: Let_def)

lemma texts_nonempty: "[] \<notin> set (texts ns)"
  by (simp add: texts_eq)

lemma derive_sets_gen:
  "[] \<notin> set tags \<Longrightarrow>
   derive_sets tags (d, e, f) =
     ((let ds = filter (prefix ''ddc:'') tags in if ds = [] then d else last ds),
      (if e \<noteq> [] then e
       else case List.find (\<lambda>s. CHR '':'' \<notin> set s \<and> s \<noteq> ''diffusable'') tags of
              None \<Rightarrow> [] | Some s \<Rightarrow> s),
      (if ''diffusable'' \<in> set tags then ''1'' else f))"
proof (induction tags arbitrary: d e f)
  case Nil
  then show ?case by simp
next
  case (Cons s ss)
  have c: "prefix ''ddc:'' s \<Longrightarrow> CHR '':'' \<in> set s"
    by (auto simp: prefix_def)
  have nd: "\<not> prefix ''ddc:'' ''diffusable''" by simp
  from Cons.prems have ne: "s \<noteq> []" and ss: "[] \<notin> set ss" by auto
  show ?case
    using Cons.IH[OF ss] ne c nd by (auto simp: Let_def)
qed

subsection \<open>Decimal keys\<close>

lemma of_char_digit_char: "d < 10 \<Longrightarrow> (of_char (digit_char d) :: nat) = 48 + d"
  by (simp add: digit_char_def)

lemma digit_char_inj: "a < 10 \<Longrightarrow> b < 10 \<Longrightarrow> digit_char a = digit_char b \<Longrightarrow> a = b"
  by (metis of_char_digit_char add_left_cancel)

lemma str_of_nat_length: "0 < length (str_of_nat n)"
  by (subst str_of_nat.simps) simp

lemma str_of_nat_inj: "str_of_nat a = str_of_nat b \<Longrightarrow> a = b"
proof (induction a arbitrary: b rule: str_of_nat.induct)
  case (1 n)
  show ?case
  proof (cases "n < 10")
    case True
    then have n: "str_of_nat n = [digit_char n]" by (subst str_of_nat.simps) simp
    show ?thesis
    proof (cases "b < 10")
      case b: True
      then have "str_of_nat b = [digit_char b]" by (subst str_of_nat.simps) simp
      with n "1.prems" True b show ?thesis by (auto dest: digit_char_inj)
    next
      case b: False
      then have "str_of_nat b = str_of_nat (b div 10) @ [digit_char (b mod 10)]"
        by (subst str_of_nat.simps) simp
      with n "1.prems" have "str_of_nat (b div 10) = []" by simp
      with str_of_nat_length[of "b div 10"] show ?thesis by simp
    qed
  next
    case False
    then have n: "str_of_nat n = str_of_nat (n div 10) @ [digit_char (n mod 10)]"
      by (subst str_of_nat.simps) simp
    show ?thesis
    proof (cases "b < 10")
      case b: True
      then have "str_of_nat b = [digit_char b]" by (subst str_of_nat.simps) simp
      with n "1.prems" have "str_of_nat (n div 10) = []" by simp
      with str_of_nat_length[of "n div 10"] show ?thesis by simp
    next
      case b: False
      then have "str_of_nat b = str_of_nat (b div 10) @ [digit_char (b mod 10)]"
        by (subst str_of_nat.simps) simp
      with n "1.prems" have e: "str_of_nat (n div 10) = str_of_nat (b div 10)"
        and d: "digit_char (n mod 10) = digit_char (b mod 10)" by auto
      from "1.IH"[OF False e] have "n div 10 = b div 10" .
      moreover from d have "n mod 10 = b mod 10"
        by (rule digit_char_inj[rotated 2]) simp_all
      ultimately show ?thesis by (metis div_mult_mod_eq)
    qed
  qed
qed

lemma contributor_key_inj: "contributor_key a = contributor_key b \<Longrightarrow> a = b"
  by (simp add: contributor_key_def str_of_nat_inj)

lemma contributor_key_prefix: "prefix ''contributor_'' (contributor_key i)"
  by (simp add: contributor_key_def)

subsection \<open>Rows\<close>

lemma fold_blank_keys:
  "distinct (map f xs) \<Longrightarrow> set (map f xs) \<inter> set (map fst row) = {} \<Longrightarrow>
   map fst (fold (\<lambda>i row. AList.update (f i) [] row) xs row) = map fst row @ map f xs"
proof (induction xs arbitrary: row)
  case Nil
  then show ?case by simp
next
  case (Cons x xs)
  let ?row = "AList.update (f x) [] row"
  from Cons.prems have fx: "f x \<notin> set (map fst row)" by auto
  then have k: "map fst ?row = map fst row @ [f x]" by (simp add: update_keys)
  from Cons.prems have "distinct (map f xs)" and "set (map f xs) \<inter> set (map fst ?row) = {}"
    unfolding k by auto
  from Cons.IH[OF this] show ?case unfolding k by simp
qed

lemma fold_blank_lookup:
  "map_of (fold (\<lambda>i row. AList.update (f i) [] row) xs row) k =
     (if k \<in> f ` set xs then Some [] else map_of row k)"
  by (induction xs arbitrary: row) (auto simp: update_conv')

lemma fold_pairs_keys:
  "f ` fst ` set ps \<subseteq> set (map fst row) \<Longrightarrow>
   map fst (fold (\<lambda>(idx, val) row. AList.update (f idx) val row) ps row) = map fst row"
proof (induction ps arbitrary: row)
  case Nil
  then show ?case by simp
next
  case (Cons p ps)
  obtain i v where p: "p = (i, v)" by (cases p)
  from Cons.prems p have k: "map fst (AList.update (f i) v row) = map fst row"
    by (auto simp: update_keys)
  from Cons.prems have "f ` fst ` set ps \<subseteq> set (map fst (AList.update (f i) v row))"
    unfolding k by auto
  from Cons.IH[OF this] show ?case using p k by simp
qed

lemma fold_pairs_lookup_other:
  "k \<notin> f ` fst ` set ps \<Longrightarrow>
   map_of (fold (\<lambda>(idx, val) row. AList.update (f idx) val row) ps row) k = map_of row k"
  by (induction ps arbitrary: row) (auto simp: update_conv')

lemma fold_enumerate_lookup:
  "inj f \<Longrightarrow>
   map_of (fold (\<lambda>(idx, val) row. AList.update (f idx) val row)
             (zip [a..<a + length vs] vs) row) (f i) =
     (if a \<le> i \<and> i < a + length vs then Some (vs ! (i - a)) else map_of row (f i))"
proof (induction vs arbitrary: a row)
  case Nil
  then show ?case by auto
next
  case (Cons v vs)
  have u: "[a..<a + length (v # vs)] = a # [Suc a..<Suc a + length vs]"
    by (subst upt_rec) simp
  have eq: "f i = f a \<longleftrightarrow> i = a"
    using Cons.prems by (auto dest: injD)
  let ?row = "AList.update (f a) v row"
  have step: "map_of (fold (\<lambda>(idx, val) row. AList.update (f idx) val row)
                   (zip [a..<a + length (v # vs)] (v # vs)) row) (f i)
      = (if Suc a \<le> i \<and> i < Suc a + length vs then Some (vs ! (i - Suc a))
         else map_of ?row (f i))"
    unfolding u using Cons.IH[OF Cons.prems, of "Suc a" ?row] by simp
  show ?case
  proof (cases "i = a")
    case True
    then show ?thesis unfolding step by (simp add: update_conv')
  next
    case False
    then have "map_of ?row (f i) = map_of row (f i)"
      by (simp add: update_conv' eq)
    moreover have "Suc a \<le> i \<Longrightarrow> (v # vs) ! (i - a) = vs ! (i - Suc a)"
      by (simp add: nth_Cons' Suc_diff_le)
    ultimately show ?thesis unfolding step using False by auto
  qed
qed

lemma not_contributor_key: "\<not> prefix ''contributor_'' k \<Longrightarrow> k \<noteq> contributor_key i"
  using contributor_key_prefix by blast

lemma base_row_keys:
  "map fst (base_row r) =
     [''oai_id'', ''setSpecs_raw'', ''set_etab'', ''set_ddc'', ''is_diffusable'',
      ''title'', ''subject'', ''description_fr'', ''description_en'',
      ''language'', ''identifier'', ''creator'', ''date'', ''year'', ''rights'']"
  by (simp add: base_row_def Let_def split: prod.split)

lemma base_row_no_contributor:
  "k \<in> set (map fst (base_row r)) \<Longrightarrow> \<not> prefix ''contributor_'' k"
  unfolding base_row_keys by auto

lemma contributor_keys_distinct: "distinct (map (\<lambda>i. contributor_key (nat i)) [1..mc])"
proof -
  have "inj_on (\<lambda>i. contributor_key (nat i)) (set [1..mc])"
    by (rule inj_onI) (auto dest!: contributor_key_inj)
  then show ?thesis by (simp add: distinct_map)
qed

lemma header_row_keys: "map fst (header_row r mc) = fieldnames mc"
proof -
  have "set (map (\<lambda>i. contributor_key (nat i)) [1..mc]) \<inter> set (map fst (base_row r)) = {}"
    using base_row_no_contributor contributor_key_prefix by fastforce
  from fold_blank_keys[OF contributor_keys_distinct this]
  show ?thesis by (simp add: header_row_def fieldnames_def base_row_keys)
qed

lemma header_row_lookup:
  "map_of (header_row r mc) k =
     (if k \<in> (\<lambda>i. contributor_key (nat i)) ` set [1..mc] then Some [] else map_of (base_row r) k)"
  by (simp only: header_row_def fold_blank_lookup)

lemma join_eq_Nil: "[] \<notin> set xs \<Longrightarrow> join sep xs = [] \<longleftrightarrow> xs = []"
  by (induction sep xs rule: join.induct) auto

lemma join_texts_eq_Nil: "join_texts ns sep = [] \<longleftrightarrow> texts ns = []"
  by (simp add: join_texts_def join_eq_Nil texts_nonempty)

lemma content_row_keys:
  assumes "set [''rights'', ''title'', ''language'', ''identifier'', ''creator'', ''subject'',
                ''date'', ''year'', ''description_fr'', ''description_en''] \<subseteq> set (map fst row0)"
  shows "map fst (content_row dc row0) = map fst row0"
  using assms by (simp add: content_row_def Let_def update_keys)

lemma content_row_other:
  assumes "k \<notin> set [''rights'', ''title'', ''language'', ''identifier'', ''creator'', ''subject'',
                ''date'', ''year'', ''description_fr'', ''description_en'']"
  shows "map_of (content_row dc row0) k = map_of row0 k"
  using assms by (simp add: content_row_def Let_def update_conv')

lemma content_row_description_fr:
  "map_of (content_row dc row0) ''description_fr'' =
     Some (if texts (xpath_description (Some ''fr'') dc) \<noteq> []
           then join [CHR 10, CHR 10] (texts (xpath_description (Some ''fr'') dc))
           else join [CHR 10, CHR 10] (texts (xpath_description None dc)))"
proof -
  have "xpath_description None dc = [] \<Longrightarrow> join_texts (xpath_description None dc) [CHR 10, CHR 10] = []"
    by (simp add: join_texts_def)
  then show ?thesis
    by (auto simp: content_row_def Let_def update_conv' join_texts_eq_Nil)
       (simp_all add: join_texts_def)
qed

lemma content_row_description_en:
  "map_of (content_row dc row0) ''description_en'' =
     Some (join [CHR 10, CHR 10] (texts (xpath_description (Some ''en'') dc)))"
  by (simp add: content_row_def Let_def update_conv' join_texts_def)

lemma fill_row_other:
  "\<not> prefix ''contributor_'' k \<Longrightarrow> map_of (fill_row dc mc row0) k = map_of (content_row dc row0) k"
  unfolding fill_row_def Let_def
  by (rule fold_pairs_lookup_other) (auto dest: not_contributor_key)

lemma inj_contributor_key: "inj contributor_key"
  by (rule injI) (rule contributor_key_inj)

lemma fill_row_contributor:
  "map_of (fill_row dc mc row0) (contributor_key i) =
     (if 1 \<le> i \<and> i \<le> length (slice_to mc (texts (dc_contributor dc)))
      then Some (slice_to mc (texts (dc_contributor dc)) ! (i - 1))
      else map_of (content_row dc row0) (contributor_key i))"
proof -
  have "[1..<Suc (length xs)] = [1..<1 + length xs]" for xs :: "string list" by simp
  then show ?thesis
    unfolding fill_row_def Let_def
    by (simp only: fold_enumerate_lookup[OF inj_contributor_key]) auto
qed

lemma upto_nat_image:
  "0 \<le> mc \<Longrightarrow> (\<lambda>i. contributor_key (nat i)) ` set [1..mc] = contributor_key ` {1..nat mc}"
proof -
  assume mc: "0 \<le> mc"
  have "(\<lambda>i. nat i) ` {1..mc} = {1..nat mc}"
  proof (rule set_eqI, rule iffI)
    fix x assume "x \<in> nat ` {1..mc}" then show "x \<in> {1..nat mc}" by auto
  next
    fix x assume x: "x \<in> {1..nat mc}"
    then have "int x \<in> {1..mc}" by auto
    then have "nat (int x) \<in> nat ` {1..mc}" by (rule imageI)
    then show "x \<in> nat ` {1..mc}" by simp
  qed
  then have "contributor_key ` ((\<lambda>i. nat i) ` set [1..mc]) = contributor_key ` {1..nat mc}"
    by simp
  then show ?thesis by (simp only: image_image)
qed

lemma fieldnames_nat:
  "0 \<le> mc \<Longrightarrow> map (\<lambda>i. contributor_key (nat i)) [1..mc] = map contributor_key [1..<Suc (nat mc)]"
proof (induction "nat mc" arbitrary: mc)
  case 0
  then show ?case by simp
next
  case (Suc n)
  then have m: "mc = (mc - 1) + 1" and n: "n = nat (mc - 1)" and p: "0 \<le> mc - 1" by auto
  have "[1..mc] = [1..mc - 1] @ [mc]" using Suc.prems Suc.hyps(2) by (simp add: upto_rec2)
  moreover have "[1..<Suc (nat mc)] = [1..<Suc (nat (mc - 1))] @ [nat mc]"
    using Suc.hyps(2) n by simp
  ultimately show ?case using Suc.hyps(1)[OF n p] by simp
qed

lemma length_slice_to: "0 \<le> mc \<Longrightarrow> length (slice_to mc xs) \<le> nat mc"
  by (simp add: slice_to_def)

lemma fill_row_keys:
  assumes "0 \<le> mc"
  shows "map fst (fill_row dc mc (header_row r mc)) = fieldnames mc"
proof -
  let ?kept = "slice_to mc (texts (dc_contributor dc))"
  have fixed: "map fst (content_row dc (header_row r mc)) = fieldnames mc"
    by (subst content_row_keys) (simp_all add: header_row_keys fieldnames_def)
  have "contributor_key ` fst ` set (zip [1..<Suc (length ?kept)] ?kept)
          \<subseteq> contributor_key ` {1..nat mc}"
    using length_slice_to[OF assms, of "texts (dc_contributor dc)"]
    by (auto dest!: set_zip_leftD)
  also have "\<dots> \<subseteq> set (fieldnames mc)"
    using assms by (auto simp: fieldnames_def fieldnames_nat)
  finally have "contributor_key ` fst ` set (zip [1..<Suc (length ?kept)] ?kept)
          \<subseteq> set (map fst (content_row dc (header_row r mc)))"
    unfolding fixed .
  from fold_pairs_keys[OF this] show ?thesis
    unfolding fill_row_def Let_def fixed .
qed

lemma extract_record_keys:
  "0 \<le> mc \<Longrightarrow> map fst (fst (extract_record r mc)) = fieldnames mc"
  by (auto simp: extract_record_def Let_def header_row_keys fill_row_keys split: list.splits)

subsection \<open>The extractor\<close>

lemma snd_extract_record:
  "snd (extract_record r mc) \<longleftrightarrow> metadata r \<noteq> [] \<and> has_open_access (hd (metadata r))"
  by (simp add: extract_record_def Let_def split: list.splits)

lemma extract_record_rejected:
  "\<not> snd (extract_record r mc) \<Longrightarrow> fst (extract_record r mc) = header_row r mc"
  by (simp add: extract_record_def Let_def split: list.splits if_splits)

lemma extract_record_accepted:
  "snd (extract_record r mc) \<Longrightarrow>
     fst (extract_record r mc) = fill_row (hd (metadata r)) mc (header_row r mc)"
  by (simp add: extract_record_def Let_def split: list.splits if_splits)

lemma header_row_fixed:
  "\<not> prefix ''contributor_'' k \<Longrightarrow> map_of (header_row r mc) k = map_of (base_row r) k"
  unfolding header_row_lookup by (auto dest: not_contributor_key)

lemma extract_record_header_field:
  assumes "k \<in> set [''oai_id'', ''setSpecs_raw'', ''set_etab'', ''set_ddc'', ''is_diffusable'']"
  shows "map_of (fst (extract_record r mc)) k = map_of (base_row r) k"
proof -
  from assms have np: "\<not> prefix ''contributor_'' k" by auto
  from assms have nc: "k \<notin> set [''rights'', ''title'', ''language'', ''identifier'', ''creator'',
      ''subject'', ''date'', ''year'', ''description_fr'', ''description_en'']" by auto
  show ?thesis
  proof (cases "snd (extract_record r mc)")
    case True
    show ?thesis
      by (simp only: extract_record_accepted[OF True] fill_row_other[OF np]
            content_row_other[OF nc] header_row_fixed[OF np])
  next
    case False
    show ?thesis by (simp only: extract_record_rejected[OF False] header_row_fixed[OF np])
  qed
qed

lemma base_row_sets:
  "map_of (base_row r) ''set_ddc'' =
     Some (let ds = filter (prefix ''ddc:'') (texts (header_setSpec r))
           in if ds = [] then [] else last ds)"
  "map_of (base_row r) ''set_etab'' =
     Some (case List.find (\<lambda>s. CHR '':'' \<notin> set s \<and> s \<noteq> ''diffusable'') (texts (header_setSpec r)) of
             None \<Rightarrow> [] | Some s \<Rightarrow> s)"
  "map_of (base_row r) ''is_diffusable'' =
     Some (if ''diffusable'' \<in> set (texts (header_setSpec r)) then ''1'' else ''0'')"
  by (simp_all add: base_row_def Let_def derive_sets_gen[OF texts_nonempty])

lemma base_row_content:
  "k \<in> set [''title'', ''subject'', ''description_fr'', ''description_en'', ''language'',
             ''identifier'', ''creator'', ''date'', ''year'', ''rights'']
   \<Longrightarrow> map_of (base_row r) k = Some []"
  by (auto simp: base_row_def Let_def case_prod_beta)

section \<open>The harvest loop\<close>

lemma lower_Nil: "lower s = ''open access'' \<Longrightarrow> s \<noteq> []"
  by (auto simp: lower_def)

lemma has_open_access_iff:
  "has_open_access dc \<longleftrightarrow>
     list_ex (\<lambda>n. lower (strip (case el_text n of None \<Rightarrow> [] | Some s \<Rightarrow> s)) = ''open access'')
       (dc_rights dc)"
  by (auto simp: has_open_access_def texts_eq list_ex_iff strip_idem dest: lower_Nil)

lemma process_records_frame:
  "token (process_records mc recs st) = token st"
  "page (process_records mc recs st) = page st"
  "requests (process_records mc recs st) = requests st"
  by (induction recs arbitrary: st; simp add: Let_def split: prod.split)+

lemma written_process_records:
  "written (process_records mc recs st) =
     written st @ map (\<lambda>r. fst (extract_record r mc))
       (filter (\<lambda>r. strip (header_status r) \<noteq> ''deleted'' \<and> snd (extract_record r mc)) recs)"
  by (induction recs arbitrary: st) (auto simp: Let_def split: prod.split)

lemma seen_process_records:
  "seen (process_records mc recs st) =
     seen st + length (filter (\<lambda>r. strip (header_status r) \<noteq> ''deleted'') recs)"
  by (induction recs arbitrary: st) (auto simp: Let_def split: prod.split)

lemma kept_process_records:
  "kept (process_records mc recs st) =
     kept st + length (filter (\<lambda>r. strip (header_status r) \<noteq> ''deleted'' \<and> snd (extract_record r mc)) recs)"
  by (induction recs arbitrary: st) (auto simp: Let_def split: prod.split)

lemma harvest_loop_page_mono: "page st \<le> page (final (harvest_loop cfg rs st))"
proof (induction rs arbitrary: st)
  case Nil
  then show ?case by simp
next
  case (Cons r rs)
  show ?case
  proof (cases r)
    case HTTPFailure
    then show ?thesis by (simp add: Let_def)
  next
    case (Content c)
    show ?thesis
    proof (cases "parse_page c")
      case (Inl e)
      with Content show ?thesis by (simp add: Let_def)
    next
      case (Inr p)
      obtain records tok where p: "p = (records, tok)" by (cases p)
      let ?st3 = "(process_records (max_contributors cfg) records
                     (st\<lparr>requests := requests st @ [oai_params (metadata_prefix cfg) (set_spec cfg) (token st)],
                         token := Some tok\<rparr>))
                  \<lparr>page := Suc (page st)\<rparr>"
      have "page ?st3 \<le> page (final (harvest_loop cfg rs ?st3))" by (rule Cons.IH)
      then show ?thesis using Content Inr p
        by (auto simp: Let_def process_records_frame)
    qed
  qed
qed

lemma harvest_loop_induct [case_names Pending Raised Stop Continue]:
  assumes pending: "\<And>st. P [] st"
    and raised: "\<And>r rs st e.
        harvest_loop cfg (r # rs) st =
          Raised e (st\<lparr>requests := requests st @ [oai_params (metadata_prefix cfg) (set_spec cfg) (token st)]\<rparr>) \<Longrightarrow>
        returned_records r = [] \<Longrightarrow> returned_token r = [] \<Longrightarrow>
        P (r # rs) st"
    and stop: "\<And>c rs st records tok st3.
        parse_page c = Inr (records, tok) \<Longrightarrow>
        st3 = (process_records (max_contributors cfg) records
                 (st\<lparr>requests := requests st @ [oai_params (metadata_prefix cfg) (set_spec cfg) (token st)],
                     token := Some tok\<rparr>))\<lparr>page := Suc (page st)\<rparr> \<Longrightarrow>
        harvest_loop cfg (Content c # rs) st = Done st3 \<Longrightarrow>
        P (Content c # rs) st"
    and continue: "\<And>c rs st records tok st3.
        parse_page c = Inr (records, tok) \<Longrightarrow>
        st3 = (process_records (max_contributors cfg) records
                 (st\<lparr>requests := requests st @ [oai_params (metadata_prefix cfg) (set_spec cfg) (token st)],
                     token := Some tok\<rparr>))\<lparr>page := Suc (page st)\<rparr> \<Longrightarrow>
        tok \<noteq> [] \<Longrightarrow>
        harvest_loop cfg (Content c # rs) st = harvest_loop cfg rs st3 \<Longrightarrow>
        P rs st3 \<Longrightarrow>
        P (Content c # rs) st"
  shows "P rs st"
proof (induction rs arbitrary: st)
  case Nil
  show ?case by (rule pending)
next
  case (Cons r rs)
  let ?st1 = "st\<lparr>requests := requests st @ [oai_params (metadata_prefix cfg) (set_spec cfg) (token st)]\<rparr>"
  show ?case
  proof (cases r)
    case HTTPFailure
    then have "harvest_loop cfg (r # rs) st = Raised TransportError ?st1" by (simp add: Let_def)
    then show ?thesis by (rule raised) (simp_all add: HTTPFailure)
  next
    case (Content c)
    show ?thesis
    proof (cases "parse_page c")
      case (Inl e)
      with Content have "harvest_loop cfg (r # rs) st = Raised e ?st1" by (simp add: Let_def)
      then show ?thesis by (rule raised) (simp_all add: Content Inl)
    next
      case (Inr p)
      obtain records tok where p: "p = (records, tok)" by (cases p)
      define st3 where "st3 = (process_records (max_contributors cfg) records
                 (st\<lparr>requests := requests st @ [oai_params (metadata_prefix cfg) (set_spec cfg) (token st)],
                     token := Some tok\<rparr>))\<lparr>page := Suc (page st)\<rparr>"
      have pp: "parse_page c = Inr (records, tok)" using Inr p by simp
      show ?thesis
      proof (cases "(\<exists>m. max_pages cfg = Some m \<and> m \<le> int (Suc (page st))) \<or> tok = []")
        case True
        then have "harvest_loop cfg (Content c # rs) st = Done st3"
          using pp
          by (auto simp: Let_def st3_def process_records_frame truthy_def split: option.splits)
        with pp st3_def show ?thesis unfolding Content by (rule stop)
      next
        case False
        then have "harvest_loop cfg (Content c # rs) st = harvest_loop cfg rs st3"
          using pp
          by (auto simp: Let_def st3_def process_records_frame truthy_def split: option.splits)
        moreover from False have "tok \<noteq> []" by simp
        ultimately show ?thesis
          unfolding Content using pp st3_def Cons.IH[of st3] by (intro continue) auto
      qed
    qed
  qed
qed

lemma harvest_loop_written:
  "page st \<le> page (final (harvest_loop cfg rs st)) \<and>
   written (final (harvest_loop cfg rs st)) =
     written st @ concat (map (\<lambda>resp. map (\<lambda>r. fst (extract_record r (max_contributors cfg)))
         (filter (\<lambda>r. strip (header_status r) \<noteq> ''deleted'' \<and> snd (extract_record r (max_contributors cfg)))
            (returned_records resp)))
       (take (page (final (harvest_loop cfg rs st)) - page st) rs))"
proof (induction rs st rule: harvest_loop_induct[where cfg = cfg])
  case (Pending st)
  show ?case by simp
next
  case (Raised r rs st e)
  show ?case unfolding Raised(1) by simp
next
  case (Stop c rs st records tok st3)
  show ?case unfolding Stop(3) using Stop(1)
    by (simp add: Stop(2) process_records_frame written_process_records)
next
  case (Continue c rs st records tok st3)
  have pg: "page st3 = Suc (page st)" and w: "written st3 = written st @
      map (\<lambda>r. fst (extract_record r (max_contributors cfg)))
         (filter (\<lambda>r. strip (header_status r) \<noteq> ''deleted'' \<and> snd (extract_record r (max_contributors cfg))) records)"
    using Continue(2) by (simp_all add: process_records_frame written_process_records)
  from Continue(5) pg have le: "Suc (page st) \<le> page (final (harvest_loop cfg rs st3))" by simp
  then have d: "page (final (harvest_loop cfg rs st3)) - page st
      = Suc (page (final (harvest_loop cfg rs st3)) - page st3)"
    using pg by simp
  show ?case
    unfolding Continue(4) d using Continue(5) le Continue(1) by (simp add: w pg)
qed

lemma harvest_loop_seen:
  "seen (final (harvest_loop cfg rs st)) =
     seen st + length (filter (\<lambda>r. strip (header_status r) \<noteq> ''deleted'')
       (concat (map returned_records (take (page (final (harvest_loop cfg rs st)) - page st) rs))))"
proof (induction rs st rule: harvest_loop_induct[where cfg = cfg])
  case (Pending st)
  show ?case by simp
next
  case (Raised r rs st e)
  show ?case unfolding Raised(1) by simp
next
  case (Stop c rs st records tok st3)
  show ?case unfolding Stop(3) using Stop(1)
    by (simp add: Stop(2) process_records_frame seen_process_records)
next
  case (Continue c rs st records tok st3)
  have pg: "page st3 = Suc (page st)" and w: "seen st3 = seen st +
      length (filter (\<lambda>r. strip (header_status r) \<noteq> ''deleted'') records)"
    using Continue(2) by (simp_all add: process_records_frame seen_process_records)
  have "page st3 \<le> page (final (harvest_loop cfg rs st3))"
    using harvest_loop_written[of st3 cfg rs] by simp
  then have d: "page (final (harvest_loop cfg rs st3)) - page st
      = Suc (page (final (harvest_loop cfg rs st3)) - page st3)"
    using pg by simp
  show ?case
    unfolding Continue(4) d using Continue(5) Continue(1) by (simp add: w pg)
qed

lemma harvest_loop_requests:
  "\<exists>n. requests (final (harvest_loop cfg rs st)) =
         requests st @ take n (oai_params (metadata_prefix cfg) (set_spec cfg) (token st)
           # map (\<lambda>resp. [(''verb'', ''ListRecords''), (''resumptionToken'', returned_token resp)]) rs)
       \<and> list_all (\<lambda>resp. returned_token resp \<noteq> []) (take (n - 1) rs)"
proof (induction rs st rule: harvest_loop_induct[where cfg = cfg])
  case (Pending st)
  show ?case by (rule exI[of _ 0]) simp
next
  case (Raised r rs st e)
  show ?case unfolding Raised(1) by (rule exI[of _ 1]) simp
next
  case (Stop c rs st records tok st3)
  show ?case unfolding Stop(3) by (rule exI[of _ 1]) (simp add: Stop(2) process_records_frame)
next
  case (Continue c rs st records tok st3)
  have tk: "oai_params (metadata_prefix cfg) (set_spec cfg) (token st3)
      = [(''verb'', ''ListRecords''), (''resumptionToken'', tok)]"
    using Continue(2,3) by (simp add: process_records_frame oai_params_def truthy_def)
  have rq: "requests st3 = requests st @ [oai_params (metadata_prefix cfg) (set_spec cfg) (token st)]"
    using Continue(2) by (simp add: process_records_frame)
  from Continue(5) obtain n where
    n: "requests (final (harvest_loop cfg rs st3)) =
         requests st3 @ take n (oai_params (metadata_prefix cfg) (set_spec cfg) (token st3)
           # map (\<lambda>resp. [(''verb'', ''ListRecords''), (''resumptionToken'', returned_token resp)]) rs)"
    and a: "list_all (\<lambda>resp. returned_token resp \<noteq> []) (take (n - 1) rs)"
    by blast
  show ?case unfolding Continue(4)
  proof (rule exI[of _ "Suc n"], intro conjI)
    show "requests (final (harvest_loop cfg rs st3)) =
      requests st @ take (Suc n) (oai_params (metadata_prefix cfg) (set_spec cfg) (token st)
           # map (\<lambda>resp. [(''verb'', ''ListRecords''), (''resumptionToken'', returned_token resp)])
               (Content c # rs))"
      unfolding n rq tk using Continue(1) by simp
    show "list_all (\<lambda>resp. returned_token resp \<noteq> []) (take (Suc n - 1) (Content c # rs))"
      using a Continue(1,3) by (cases n) simp_all
  qed
qed

lemma take_length_take: "take (length (take n xs)) xs = take n xs"
  by (simp add: min_def)

lemma harvest_loop_until_empty:
  assumes "\<forall>p\<in>set pre. \<exists>recs tok. parse_page (Document p) = Inr (recs, tok) \<and> tok \<noteq> []"
    and "\<exists>recs. parse_page (Document l) = Inr (recs, [])"
    and "\<forall>m. max_pages cfg = Some m \<longrightarrow> int (page st + length pre) + 1 \<le> m"
  shows "\<exists>st'. harvest_loop cfg (map (\<lambda>p. Content (Document p)) pre @ Content (Document l) # rest) st
            = Done st'
          \<and> length (requests st') = length (requests st) + length pre + 1
          \<and> page st' = page st + length pre + 1"
  using assms
proof (induction pre arbitrary: st)
  case Nil
  then obtain recs where "parse_page (Document l) = Inr (recs, [])" by blast
  then show ?case
    by (simp add: Let_def process_records_frame truthy_def split: option.splits)
next
  case (Cons p pre)
  then obtain recs tok where pp: "parse_page (Document p) = Inr (recs, tok)" and tok: "tok \<noteq> []"
    by auto
  define st3 where "st3 = (process_records (max_contributors cfg) recs
                 (st\<lparr>requests := requests st @ [oai_params (metadata_prefix cfg) (set_spec cfg) (token st)],
                     token := Some tok\<rparr>))\<lparr>page := Suc (page st)\<rparr>"
  have fr: "page st3 = Suc (page st)" "token st3 = Some tok"
      "length (requests st3) = Suc (length (requests st))"
    by (simp_all add: st3_def process_records_frame)
  have nolimit: "\<not> (\<exists>m. max_pages cfg = Some m \<and> m \<le> int (Suc (page st)))"
    using Cons.prems(3) by auto
  have step: "harvest_loop cfg (map (\<lambda>p. Content (Document p)) (p # pre) @ Content (Document l) # rest) st
      = harvest_loop cfg (map (\<lambda>p. Content (Document p)) pre @ Content (Document l) # rest) st3"
    using pp tok nolimit
    by (auto simp: Let_def st3_def process_records_frame truthy_def split: option.splits)
  have "\<forall>m. max_pages cfg = Some m \<longrightarrow> int (page st3 + length pre) + 1 \<le> m"
    using Cons.prems(3) fr by auto
  from Cons.IH[OF _ Cons.prems(2) this] Cons.prems(1)
  show ?case unfolding step using fr by auto
qed

section \<open>Properties of the extractor\<close>

text \<open>
  C3. The three fields derived from the category tags of a record (the non-blank,
  trimmed texts of its \<open>setSpec\<close> elements, in document order): \<open>set_ddc\<close> is the
  last tag that starts with \<open>ddc:\<close>, empty if there is none; \<open>is_diffusable\<close> is
  \<open>1\<close> exactly when some tag equals \<open>diffusable\<close>, else \<open>0\<close>; \<open>set_etab\<close> is the
  first tag that has no colon and is not \<open>diffusable\<close>, empty if there is none. This
  holds of the row of every record, accepted or not, for every number of contributor
  columns.
\<close>

theorem extract_record_sets:
  "map_of (fst (extract_record r mc)) ''set_ddc'' =
     Some (let ds = filter (prefix ''ddc:'') (texts (header_setSpec r))
           in if ds = [] then [] else last ds)
   \<and> map_of (fst (extract_record r mc)) ''is_diffusable'' =
     Some (if ''diffusable'' \<in> set (texts (header_setSpec r)) then ''1'' else ''0'')
   \<and> map_of (fst (extract_record r mc)) ''set_etab'' =
     Some (case List.find (\<lambda>s. CHR '':'' \<notin> set s \<and> s \<noteq> ''diffusable'')
                  (texts (header_setSpec r)) of
             None \<Rightarrow> [] | Some s \<Rightarrow> s)"
  by (simp add: extract_record_header_field base_row_sets)

theorem extract_record_sets_witness:
  "map_of (fst (extract_record
       ((ex_record [] [])\<lparr>header_setSpec :=
          [ex_text ''diffusable'', ex_text ''ddc:620'', ex_text ''CNAM'', ex_text ''ddc:500'',
           ex_text ''XYZ'']\<rparr>) 3)) ''set_ddc'' = Some ''ddc:500''
   \<and> map_of (fst (extract_record
       ((ex_record [] [])\<lparr>header_setSpec :=
          [ex_text ''diffusable'', ex_text ''ddc:620'', ex_text ''CNAM'', ex_text ''ddc:500'',
           ex_text ''XYZ'']\<rparr>) 3)) ''is_diffusable'' = Some ''1''
   \<and> map_of (fst (extract_record
       ((ex_record [] [])\<lparr>header_setSpec :=
          [ex_text ''diffusable'', ex_text ''ddc:620'', ex_text ''CNAM'', ex_text ''ddc:500'',
           ex_text ''XYZ'']\<rparr>) 3)) ''set_etab'' = Some ''CNAM''"
proof -
  have t: "texts [ex_text ''diffusable'', ex_text ''ddc:620'', ex_text ''CNAM'', ex_text ''ddc:500'',
                  ex_text ''XYZ'']
             = [''diffusable'', ''ddc:620'', ''CNAM'', ''ddc:500'', ''XYZ'']"
    by code_simp
  from extract_record_sets[of
      "(ex_record [] [])\<lparr>header_setSpec :=
          [ex_text ''diffusable'', ex_text ''ddc:620'', ex_text ''CNAM'', ex_text ''ddc:500'',
           ex_text ''XYZ'']\<rparr>" 3] t
  show ?thesis by simp
qed

text \<open>
  C5. For every accepted record, with the description values of a language being the
  non-blank, trimmed texts of the description elements of the first metadata payload that
  carry that \<open>xml:lang\<close>: \<open>description_fr\<close> is the join, with a blank line
  between, of the values tagged \<open>fr\<close> when there is one, and otherwise the same join of
  the values with no language tag; \<open>description_en\<close> is the join of the values tagged
  \<open>en\<close>, whatever the untagged values are.
\<close>

theorem extract_record_descriptions:
  assumes "extract_record r mc = (row, True)"
  shows "map_of row ''description_fr'' =
           Some (if texts (filter (\<lambda>n. el_lang n = Some ''fr'') (dc_description (hd (metadata r)))) \<noteq> []
                 then join [CHR 10, CHR 10]
                        (texts (filter (\<lambda>n. el_lang n = Some ''fr'') (dc_description (hd (metadata r)))))
                 else join [CHR 10, CHR 10]
                        (texts (filter (\<lambda>n. el_lang n = None) (dc_description (hd (metadata r))))))
       \<and> map_of row ''description_en'' =
           Some (join [CHR 10, CHR 10]
                   (texts (filter (\<lambda>n. el_lang n = Some ''en'') (dc_description (hd (metadata r))))))"
proof -
  from assms have s: "snd (extract_record r mc)" and row: "row = fst (extract_record r mc)"
    by simp_all
  have np: "\<not> prefix ''contributor_'' ''description_fr''" "\<not> prefix ''contributor_'' ''description_en''"
    by simp_all
  show ?thesis
    unfolding row extract_record_accepted[OF s]
    by (simp only: fill_row_other[OF np(1)] fill_row_other[OF np(2)]
          content_row_description_fr content_row_description_en xpath_description_def simp_thms)
qed

theorem extract_record_descriptions_witness:
  "snd (extract_record (ex_record [] [ex_dc [ex_text ''Resume'', ex_text ''Suite''] []]) 3)
   \<and> map_of (fst (extract_record (ex_record [] [ex_dc [ex_text ''Resume'', ex_text ''Suite''] []]) 3))
        ''description_fr'' = Some (''Resume'' @ [CHR 10, CHR 10] @ ''Suite'')
   \<and> map_of (fst (extract_record (ex_record [] [ex_dc [ex_text ''Resume'', ex_text ''Suite''] []]) 3))
        ''description_en'' = Some []
   \<and> snd (extract_record (ex_record [] [ex_dc [ex_text ''Plain'', ex_lang ''fr'' ''Resume'',
              ex_lang ''en'' ''Abstract''] []]) 3)
   \<and> map_of (fst (extract_record (ex_record [] [ex_dc [ex_text ''Plain'', ex_lang ''fr'' ''Resume'',
              ex_lang ''en'' ''Abstract''] []]) 3))
        ''description_fr'' = Some ''Resume''
   \<and> map_of (fst (extract_record (ex_record [] [ex_dc [ex_text ''Plain'', ex_lang ''fr'' ''Resume'',
              ex_lang ''en'' ''Abstract''] []]) 3))
        ''description_en'' = Some ''Abstract''"
proof -
  let ?a = "ex_record [] [ex_dc [ex_text ''Resume'', ex_text ''Suite''] []]"
  let ?b = "ex_record [] [ex_dc [ex_text ''Plain'', ex_lang ''fr'' ''Resume'',
              ex_lang ''en'' ''Abstract''] []]"
  have s: "snd (extract_record ?a 3)" "snd (extract_record ?b 3)" by code_simp+
  then have e: "extract_record ?a 3 = (fst (extract_record ?a 3), True)"
    "extract_record ?b 3 = (fst (extract_record ?b 3), True)"
    by (simp_all add: prod_eq_iff)
  have v: "texts [ex_text ''Resume'', ex_text ''Suite''] = [''Resume'', ''Suite'']"
    "texts [ex_lang ''fr'' ''Resume''] = [''Resume'']"
    "texts [ex_lang ''en'' ''Abstract''] = [''Abstract'']"
    by code_simp+
  from extract_record_descriptions[OF e(1)] extract_record_descriptions[OF e(2)] s v
  show ?thesis by simp
qed

lemma extract_record_contributor_column:
  assumes "0 \<le> mc" and "snd (extract_record r mc)" and "i \<in> {1..nat mc}"
  shows "map_of (fst (extract_record r mc)) (contributor_key i) =
           Some (if i \<le> length (texts (dc_contributor (hd (metadata r))))
                 then texts (dc_contributor (hd (metadata r))) ! (i - 1) else [])"
proof -
  let ?cs = "texts (dc_contributor (hd (metadata r)))"
  have sl: "slice_to mc ?cs = take (nat mc) ?cs" using assms(1) by (simp add: slice_to_def)
  have nc: "contributor_key i \<notin> set [''rights'', ''title'', ''language'', ''identifier'',
      ''creator'', ''subject'', ''date'', ''year'', ''description_fr'', ''description_en'']"
    using contributor_key_prefix[of i] by auto
  have "contributor_key i \<in> (\<lambda>i. contributor_key (nat i)) ` set [1..mc]"
    unfolding upto_nat_image[OF assms(1)] using assms(3) by (rule imageI)
  then have blank: "map_of (header_row r mc) (contributor_key i) = Some []"
    by (simp only: header_row_lookup if_True)
  show ?thesis
    unfolding extract_record_accepted[OF assms(2)] fill_row_contributor sl
    using assms(3) by (auto simp: content_row_other[OF nc] blank)
qed

text \<open>
  C6. For every accepted record and every maximum \<open>N \<ge> 0\<close> of contributor columns,
  with the contributor values being the non-blank, trimmed texts of the contributor
  elements in document order: the columns of the row are those of the header, so the
  contributor columns are \<open>contributor_1\<close> to \<open>contributor_N\<close> and no other, and read
  in that order they hold the first \<open>N\<close> values, one value each, followed by empty
  strings when there are fewer than \<open>N\<close> values. Values beyond the first \<open>N\<close> appear
  nowhere among them.
\<close>

theorem extract_record_contributors:
  assumes "0 \<le> mc" and "extract_record r mc = (row, True)"
  shows "map fst row = fieldnames mc
       \<and> map (\<lambda>i. map_of row (contributor_key i)) [1..<Suc (nat mc)] =
           map Some (take (nat mc) (texts (dc_contributor (hd (metadata r))))
                     @ replicate (nat mc - length (texts (dc_contributor (hd (metadata r))))) [])"
proof -
  let ?cs = "texts (dc_contributor (hd (metadata r)))"
  from assms have s: "snd (extract_record r mc)" and row: "row = fst (extract_record r mc)"
    by simp_all
  have keys: "map fst row = fieldnames mc"
    unfolding row by (rule extract_record_keys[OF assms(1)])
  have "map (\<lambda>i. map_of row (contributor_key i)) [1..<Suc (nat mc)] =
           map Some (take (nat mc) ?cs @ replicate (nat mc - length ?cs) [])"
  proof (rule nth_equalityI)
    show "length (map (\<lambda>i. map_of row (contributor_key i)) [1..<Suc (nat mc)]) =
          length (map Some (take (nat mc) ?cs @ replicate (nat mc - length ?cs) []))"
      by (auto simp: min_def simp del: upt_Suc)
  next
    fix j
    assume "j < length (map (\<lambda>i. map_of row (contributor_key i)) [1..<Suc (nat mc)])"
    then have j: "j < nat mc" by (simp del: upt_Suc)
    then have i: "Suc j \<in> {1..nat mc}" by simp
    have "[1..<Suc (nat mc)] ! j = Suc j" using j by (simp add: nth_upt del: upt_Suc)
    then have l: "map (\<lambda>i. map_of row (contributor_key i)) [1..<Suc (nat mc)] ! j =
        map_of row (contributor_key (Suc j))"
      using j by (simp del: upt_Suc)
    have r: "map Some (take (nat mc) ?cs @ replicate (nat mc - length ?cs) []) ! j =
        Some (if Suc j \<le> length ?cs then ?cs ! j else [])"
      using j by (simp add: nth_append)
    have c: "map_of row (contributor_key (Suc j)) =
        Some (if Suc j \<le> length ?cs then ?cs ! j else [])"
      unfolding row using extract_record_contributor_column[OF assms(1) s i] by simp
    show "map (\<lambda>i. map_of row (contributor_key i)) [1..<Suc (nat mc)] ! j =
          map Some (take (nat mc) ?cs @ replicate (nat mc - length ?cs) []) ! j"
      by (simp only: l r c)
  qed
  with keys show ?thesis by blast
qed

theorem extract_record_contributors_witness:
  "(0::int) \<le> 1
   \<and> snd (extract_record (ex_record [] [ex_dc [] []]) 1)
   \<and> map fst (fst (extract_record (ex_record [] [ex_dc [] []]) 1)) = fieldnames 1
   \<and> map (\<lambda>i. map_of (fst (extract_record (ex_record [] [ex_dc [] []]) 1)) (contributor_key i))
        [1..<Suc (nat 1)] = [Some ''Ada'']
   \<and> (0::int) \<le> 3
   \<and> snd (extract_record (ex_record [] [ex_dc [] []]) 3)
   \<and> map (\<lambda>i. map_of (fst (extract_record (ex_record [] [ex_dc [] []]) 3)) (contributor_key i))
        [1..<Suc (nat 3)] = [Some ''Ada'', Some ''Bob'', Some []]"
proof -
  let ?r = "ex_record [] [ex_dc [] []]"
  have s: "snd (extract_record ?r 3)" "snd (extract_record ?r 1)" by code_simp+
  then have e: "extract_record ?r 3 = (fst (extract_record ?r 3), True)"
    "extract_record ?r 1 = (fst (extract_record ?r 1), True)"
    by (simp_all add: prod_eq_iff)
  have v: "texts (dc_contributor (hd (metadata ?r))) = [''Ada'', ''Bob'']" by code_simp
  have n: "(0::int) \<le> 3" "(0::int) \<le> 1" by simp_all
  from extract_record_contributors[OF n(1) e(1), unfolded v]
    extract_record_contributors[OF n(2) e(2), unfolded v]
  show ?thesis using s by (simp add: numeral_3_eq_3)
qed

text \<open>
  C10. For every record node and every maximum \<open>N \<ge> 0\<close> of contributor columns, the
  keys of the returned row are, in order, the fifteen fixed fields followed by
  \<open>contributor_1\<close> to \<open>contributor_N\<close>; \<open>is_diffusable\<close> is \<open>0\<close> or \<open>1\<close>; and when
  the record is rejected, every content field (the ten from \<open>title\<close> to \<open>rights\<close> and
  every contributor column) is the empty string.
\<close>

theorem extract_record_row_shape:
  assumes "0 \<le> mc"
  shows "map fst (fst (extract_record r mc)) =
           [''oai_id'', ''setSpecs_raw'', ''set_etab'', ''set_ddc'', ''is_diffusable'',
            ''title'', ''subject'', ''description_fr'', ''description_en'',
            ''language'', ''identifier'', ''creator'', ''date'', ''year'', ''rights'']
           @ map contributor_key [1..<Suc (nat mc)]
       \<and> (map_of (fst (extract_record r mc)) ''is_diffusable'' = Some ''0''
            \<or> map_of (fst (extract_record r mc)) ''is_diffusable'' = Some ''1'')
       \<and> (\<not> snd (extract_record r mc) \<longrightarrow>
            (\<forall>k\<in>set ([''title'', ''subject'', ''description_fr'', ''description_en'',
                        ''language'', ''identifier'', ''creator'', ''date'', ''year'', ''rights'']
                       @ map contributor_key [1..<Suc (nat mc)]).
               map_of (fst (extract_record r mc)) k = Some []))"
proof (intro conjI impI ballI)
  show "map fst (fst (extract_record r mc)) =
           [''oai_id'', ''setSpecs_raw'', ''set_etab'', ''set_ddc'', ''is_diffusable'',
            ''title'', ''subject'', ''description_fr'', ''description_en'',
            ''language'', ''identifier'', ''creator'', ''date'', ''year'', ''rights'']
           @ map contributor_key [1..<Suc (nat mc)]"
    by (simp only: extract_record_keys[OF assms] fieldnames_def fieldnames_nat[OF assms])
next
  show "map_of (fst (extract_record r mc)) ''is_diffusable'' = Some ''0''
            \<or> map_of (fst (extract_record r mc)) ''is_diffusable'' = Some ''1''"
    by (simp add: extract_record_header_field base_row_sets)
next
  fix k
  assume rej: "\<not> snd (extract_record r mc)"
    and k: "k \<in> set ([''title'', ''subject'', ''description_fr'', ''description_en'',
                        ''language'', ''identifier'', ''creator'', ''date'', ''year'', ''rights'']
                       @ map contributor_key [1..<Suc (nat mc)])"
  show "map_of (fst (extract_record r mc)) k = Some []"
  proof (cases "k \<in> set (map contributor_key [1..<Suc (nat mc)])")
    case True
    then have "k \<in> (\<lambda>i. contributor_key (nat i)) ` set [1..mc]"
      by (simp only: fieldnames_nat[OF assms, symmetric] set_map)
    then show ?thesis
      by (simp only: extract_record_rejected[OF rej] header_row_lookup if_True)
  next
    case False
    with k have f: "k \<in> set [''title'', ''subject'', ''description_fr'', ''description_en'',
                        ''language'', ''identifier'', ''creator'', ''date'', ''year'', ''rights'']"
      by auto
    then have np: "\<not> prefix ''contributor_'' k" by auto
    show ?thesis
      by (simp only: extract_record_rejected[OF rej] header_row_fixed[OF np]
            base_row_content[OF f])
  qed
qed

theorem extract_record_row_shape_witness:
  "(0::int) \<le> 2
   \<and> \<not> snd (extract_record (ex_record [] []) 2)
   \<and> map fst (fst (extract_record (ex_record [] []) 2)) =
        [''oai_id'', ''setSpecs_raw'', ''set_etab'', ''set_ddc'', ''is_diffusable'',
         ''title'', ''subject'', ''description_fr'', ''description_en'',
         ''language'', ''identifier'', ''creator'', ''date'', ''year'', ''rights'',
         ''contributor_1'', ''contributor_2'']
   \<and> map_of (fst (extract_record (ex_record [] []) 2)) ''title'' = Some []
   \<and> map_of (fst (extract_record (ex_record [] []) 2)) ''contributor_2'' = Some []"
proof -
  let ?r = "ex_record [] []"
  have s: "\<not> snd (extract_record ?r 2)" by code_simp
  have k: "map contributor_key [1..<Suc (nat 2)] = [''contributor_1'', ''contributor_2'']"
    by code_simp
  have "(0::int) \<le> 2" by simp
  from extract_record_row_shape[OF this, of ?r, unfolded k] s show ?thesis by simp
qed

lemma extract_year_examples:
  "extract_year ''2019-05-10'' = ''2019''"
  "extract_year ''circa 1998?'' = ''1998''"
  "extract_year [] = []"
  "extract_year ''12 mai, an 2'' = []"
  "extract_year ''120190'' = []"
  by code_simp+

text \<open>
  C7. The year is meant to come from the first date value. \<open>extract_record\<close> takes it
  from the joined \<open>date\<close> field instead, as the text before the first \<open> | \<close>, so a first
  date value that itself contains \<open> | \<close> is cut there. For the single date value
  \<open>n.d. | 2019\<close> the scan of that value finds \<open>2019\<close>, and the row of the record has an
  empty \<open>year\<close>.
\<close>

theorem year_of_date_with_separator:
  "texts (dc_date (ex_dc [] [ex_text ''n.d. | 2019''])) = [''n.d. | 2019'']
   \<and> extract_year ''n.d. | 2019'' = ''2019''
   \<and> snd (extract_record (ex_record [] [ex_dc [] [ex_text ''n.d. | 2019'']]) 3)
   \<and> map_of (fst (extract_record (ex_record [] [ex_dc [] [ex_text ''n.d. | 2019'']]) 3)) ''date''
       = Some ''n.d. | 2019''
   \<and> map_of (fst (extract_record (ex_record [] [ex_dc [] [ex_text ''n.d. | 2019'']]) 3)) ''year''
       = Some []"
  by code_simp

section \<open>Properties of the harvest\<close>

text \<open>
  C1. Over the records of a page, in order, a row is written for a record exactly when
  its status is not \<open>deleted\<close>, it has a metadata payload, and some rights element of
  that payload has a text that, trimmed and lowercased, is \<open>open access\<close>; the row is
  the one the extractor returns, and the other records add nothing to the output.
\<close>

theorem process_records_written:
  "written (process_records mc recs st) =
     written st @ map (\<lambda>r. fst (extract_record r mc))
       (filter (\<lambda>r. strip (header_status r) \<noteq> ''deleted''
                     \<and> metadata r \<noteq> []
                     \<and> list_ex (\<lambda>n. lower (strip (case el_text n of None \<Rightarrow> [] | Some s \<Rightarrow> s))
                                      = ''open access'')
                          (dc_rights (hd (metadata r))))
          recs)"
  by (simp only: written_process_records snd_extract_record has_open_access_iff)

theorem process_records_written_witness:
  "written (process_records 3
      [ex_record [] [ex_dc [] []],
       ex_record ''deleted'' [ex_dc [] []],
       ex_record [] [],
       ex_record [] [(ex_dc [] [])\<lparr>dc_rights := [ex_text ''Restricted'', ex_text ''  OPEN access '']\<rparr>],
       ex_record [] [(ex_dc [] [])\<lparr>dc_rights := [ex_text ''Open Access policy'']\<rparr>]]
      \<lparr>written = [], kept = 0, seen = 0, token = None, page = 0, requests = []\<rparr>)
   = [fst (extract_record (ex_record [] [ex_dc [] []]) 3),
      fst (extract_record
        (ex_record [] [(ex_dc [] [])\<lparr>dc_rights := [ex_text ''Restricted'', ex_text ''  OPEN access '']\<rparr>]) 3)]"
proof -
  let ?recs = "[ex_record [] [ex_dc [] []],
       ex_record ''deleted'' [ex_dc [] []],
       ex_record [] [],
       ex_record [] [(ex_dc [] [])\<lparr>dc_rights := [ex_text ''Restricted'', ex_text ''  OPEN access '']\<rparr>],
       ex_record [] [(ex_dc [] [])\<lparr>dc_rights := [ex_text ''Open Access policy'']\<rparr>]]"
  have f: "filter (\<lambda>r. strip (header_status r) \<noteq> ''deleted''
                     \<and> metadata r \<noteq> []
                     \<and> list_ex (\<lambda>n. lower (strip (case el_text n of None \<Rightarrow> [] | Some s \<Rightarrow> s))
                                      = ''open access'')
                          (dc_rights (hd (metadata r)))) ?recs
      = [ex_record [] [ex_dc [] []],
         ex_record [] [(ex_dc [] [])\<lparr>dc_rights := [ex_text ''Restricted'', ex_text ''  OPEN access '']\<rparr>]]"
    by code_simp
  show ?thesis
    by (simp only: process_records_written[of 3 ?recs] f harvest_state.simps append_Nil list.map)
qed

text \<open>
  C2, as the claim states it, fails: a run over one page that holds one record marked
  deleted ends with \<open>seen = 0\<close>.
\<close>

theorem deleted_record_not_seen:
  "seen (final (harvest (ex_config None)
      [Content (Document (ex_page [ex_record ''deleted'' []] []))])) = 0
   \<and> written (final (harvest (ex_config None)
      [Content (Document (ex_page [ex_record ''deleted'' []] []))])) = []"
  by code_simp

text \<open>
  C2, amended. For every record that is marked deleted or has no metadata payload, no row
  is emitted and \<open>kept\<close> does not change; \<open>seen\<close> is incremented for such a record
  when it is not marked deleted, and stays as it is when the record is marked deleted. So
  after a run \<open>seen\<close> counts the records of the fetched pages that are not marked
  deleted.
\<close>

theorem process_records_skipped:
  assumes "strip (header_status r) = ''deleted'' \<or> metadata r = []"
  shows "written (process_records mc [r] st) = written st
       \<and> kept (process_records mc [r] st) = kept st
       \<and> seen (process_records mc [r] st) =
           (if strip (header_status r) = ''deleted'' then seen st else seen st + 1)
       \<and> seen (final (harvest cfg rs)) =
           length (filter (\<lambda>r. strip (header_status r) \<noteq> ''deleted'')
             (concat (map returned_records (take (page (final (harvest cfg rs))) rs))))"
proof -
  have "seen (final (harvest cfg rs)) =
           length (filter (\<lambda>r. strip (header_status r) \<noteq> ''deleted'')
             (concat (map returned_records (take (page (final (harvest cfg rs))) rs))))"
    unfolding harvest_def by (subst harvest_loop_seen) simp
  moreover have "\<not> (strip (header_status r) \<noteq> ''deleted'' \<and> snd (extract_record r mc))"
    using assms by (auto simp: snd_extract_record)
  ultimately show ?thesis
    by (simp add: written_process_records kept_process_records seen_process_records
          del: process_records.simps)
qed

theorem process_records_skipped_witness:
  "metadata (ex_record [] []) = []
   \<and> written (process_records 3 [ex_record [] []]
        \<lparr>written = [], kept = 0, seen = 0, token = None, page = 0, requests = []\<rparr>) = []
   \<and> seen (process_records 3 [ex_record [] []]
        \<lparr>written = [], kept = 0, seen = 0, token = None, page = 0, requests = []\<rparr>) = 1
   \<and> strip (header_status (ex_record '' deleted '' [ex_dc [] []])) = ''deleted''
   \<and> written (process_records 3 [ex_record '' deleted '' [ex_dc [] []]]
        \<lparr>written = [], kept = 0, seen = 0, token = None, page = 0, requests = []\<rparr>) = []
   \<and> seen (process_records 3 [ex_record '' deleted '' [ex_dc [] []]]
        \<lparr>written = [], kept = 0, seen = 0, token = None, page = 0, requests = []\<rparr>) = 0"
proof -
  let ?st = "\<lparr>written = [], kept = 0, seen = 0, token = None, page = 0, requests = []\<rparr>"
  have a: "strip (header_status (ex_record [] [])) = ''deleted'' \<or> metadata (ex_record [] []) = []"
    by simp
  have na: "strip (header_status (ex_record [] [])) \<noteq> ''deleted''" by code_simp
  have d: "strip (header_status (ex_record '' deleted '' [ex_dc [] []])) = ''deleted''"
    by code_simp
  then have b: "strip (header_status (ex_record '' deleted '' [ex_dc [] []])) = ''deleted''
      \<or> metadata (ex_record '' deleted '' [ex_dc [] []]) = []" ..
  from process_records_skipped[OF a, of 3 ?st] process_records_skipped[OF b, of 3 ?st] na d
  show ?thesis by (simp del: process_records.simps)
qed

text \<open>
  C4. When the first \<open>N - 1\<close> responses are pages with a non-empty cursor and the
  \<open>N\<close>-th is a page with an empty cursor, the run ends normally after exactly \<open>N\<close>
  requests and \<open>N\<close> pages, whatever responses would follow, when no page limit is
  configured and when the configured limit is at least \<open>N\<close>.
\<close>

theorem harvest_stops_at_empty_cursor:
  assumes "\<forall>p\<in>set pre. \<exists>recs tok. parse_page (Document p) = Inr (recs, tok) \<and> tok \<noteq> []"
    and "\<exists>recs. parse_page (Document l) = Inr (recs, [])"
    and "\<forall>m. max_pages cfg = Some m \<longrightarrow> int (length pre) + 1 \<le> m"
  shows "\<exists>st. harvest cfg (map (\<lambda>p. Content (Document p)) pre @ Content (Document l) # rest) = Done st
          \<and> length (requests st) = length pre + 1
          \<and> page st = length pre + 1"
proof -
  let ?st0 = "\<lparr>written = [], kept = 0, seen = 0, token = None, page = 0, requests = []\<rparr>"
  have "\<forall>m. max_pages cfg = Some m \<longrightarrow> int (page ?st0 + length pre) + 1 \<le> m"
    using assms(3) by simp
  from harvest_loop_until_empty[OF assms(1,2) this, of rest]
  show ?thesis by (simp add: harvest_def)
qed

theorem harvest_stops_at_empty_cursor_witness:
  "\<exists>st. harvest (ex_config (Some 5))
          [Content (Document (ex_page [ex_record [] []] [ex_text ''cursor-1''])),
           Content (Document (ex_page [] [])),
           HTTPFailure] = Done st
        \<and> length (requests st) = 2 \<and> page st = 2"
proof -
  have a: "\<forall>p\<in>set [ex_page [ex_record [] []] [ex_text ''cursor-1'']].
             \<exists>recs tok. parse_page (Document p) = Inr (recs, tok) \<and> tok \<noteq> []"
    by (simp add: parse_page_def) code_simp
  have b: "\<exists>recs. parse_page (Document (ex_page [] [])) = Inr (recs, [])"
    by (simp add: parse_page_def)
  have c: "\<forall>m. max_pages (ex_config (Some 5)) = Some m
             \<longrightarrow> int (length [ex_page [ex_record [] []] [ex_text ''cursor-1'']]) + 1 \<le> m"
    by simp
  from harvest_stops_at_empty_cursor[OF a b c, of "[HTTPFailure]"]
  show ?thesis by (simp add: numeral_2_eq_2)
qed

text \<open>
  C8. Whatever the responses and however the run ends, the rows written are the rows of
  the accepted records (not marked deleted, and accepted by the extractor) of the pages
  fetched, page after page and within a page record after record: the output is the
  image of that sequence of records, so no row is moved, repeated or merged with an
  equal one.
\<close>

theorem harvest_written_order:
  "written (final (harvest cfg rs)) =
     map (\<lambda>r. fst (extract_record r (max_contributors cfg)))
       (filter (\<lambda>r. strip (header_status r) \<noteq> ''deleted'' \<and> snd (extract_record r (max_contributors cfg)))
          (concat (map returned_records (take (page (final (harvest cfg rs))) rs))))"
  unfolding harvest_def
  by (subst conjunct2[OF harvest_loop_written]) (simp add: map_concat filter_concat comp_def)

theorem harvest_written_order_witness:
  "written (final (harvest (ex_config None)
      [Content (Document (ex_page
         [ex_record [] [ex_dc [] [ex_text ''2019-05-10'']], ex_record ''deleted'' []]
         [ex_text ''cursor-1''])),
       Content (Document (ex_page
         [ex_record [] [ex_dc [] []], ex_record [] [], ex_record [] [ex_dc [] [ex_text ''2019-05-10'']],
          ex_record [] [ex_dc [] []]]
         []))]))
   = [fst (extract_record (ex_record [] [ex_dc [] [ex_text ''2019-05-10'']]) 3),
      fst (extract_record (ex_record [] [ex_dc [] []]) 3),
      fst (extract_record (ex_record [] [ex_dc [] [ex_text ''2019-05-10'']]) 3),
      fst (extract_record (ex_record [] [ex_dc [] []]) 3)]"
proof -
  let ?rs = "[Content (Document (ex_page
         [ex_record [] [ex_dc [] [ex_text ''2019-05-10'']], ex_record ''deleted'' []]
         [ex_text ''cursor-1''])),
       Content (Document (ex_page
         [ex_record [] [ex_dc [] []], ex_record [] [], ex_record [] [ex_dc [] [ex_text ''2019-05-10'']],
          ex_record [] [ex_dc [] []]]
         []))]"
  have p: "page (final (harvest (ex_config None) ?rs)) = 2" by code_simp
  have f: "filter (\<lambda>r. strip (header_status r) \<noteq> ''deleted''
                        \<and> snd (extract_record r (max_contributors (ex_config None))))
             (concat (map returned_records (take 2 ?rs)))
      = [ex_record [] [ex_dc [] [ex_text ''2019-05-10'']], ex_record [] [ex_dc [] []],
         ex_record [] [ex_dc [] [ex_text ''2019-05-10'']], ex_record [] [ex_dc [] []]]"
    by code_simp
  from harvest_written_order[of "ex_config None" ?rs, unfolded p f]
  show ?thesis by simp
qed

text \<open>
  C9. The requests of a run are, in order, a first request with the verb, the metadata
  format and, exactly when a set filter is configured (neither absent nor empty), the
  set; then, for each page fetched before the last request, a request with the verb and
  that page's cursor and nothing else, the cursor being non-empty. The last three
  conjuncts say the same of \<open>oai_params\<close> alone: a non-empty token gives the verb and
  the token only, and an absent or empty token gives the first-page parameters.
\<close>

theorem harvest_requests:
  "requests (final (harvest cfg rs)) =
     take (length (requests (final (harvest cfg rs))))
       (([(''verb'', ''ListRecords''), (''metadataPrefix'', metadata_prefix cfg)]
           @ (if truthy (set_spec cfg) then [(''set'', the (set_spec cfg))] else []))
        # map (\<lambda>resp. [(''verb'', ''ListRecords''), (''resumptionToken'', returned_token resp)]) rs)
   \<and> list_all (\<lambda>resp. returned_token resp \<noteq> [])
        (take (length (requests (final (harvest cfg rs))) - 1) rs)
   \<and> oai_params mp ss (Some (c # t)) = [(''verb'', ''ListRecords''), (''resumptionToken'', c # t)]
   \<and> oai_params mp ss (Some []) = oai_params mp ss None
   \<and> oai_params mp ss None =
       [(''verb'', ''ListRecords''), (''metadataPrefix'', mp)]
         @ (if truthy ss then [(''set'', the ss)] else [])"
proof -
  let ?first = "[(''verb'', ''ListRecords''), (''metadataPrefix'', metadata_prefix cfg)]
           @ (if truthy (set_spec cfg) then [(''set'', the (set_spec cfg))] else [])"
  let ?all = "?first # map (\<lambda>resp. [(''verb'', ''ListRecords''), (''resumptionToken'', returned_token resp)]) rs"
  let ?reqs = "requests (final (harvest cfg rs))"
  have f: "oai_params (metadata_prefix cfg) (set_spec cfg) None = ?first"
    by (simp add: oai_params_def truthy_def)
  have "\<exists>n. ?reqs = take n ?all
           \<and> list_all (\<lambda>resp. returned_token resp \<noteq> []) (take (n - 1) rs)"
    using harvest_loop_requests[of cfg rs
        "\<lparr>written = [], kept = 0, seen = 0, token = None, page = 0, requests = []\<rparr>"]
    unfolding harvest_def by (simp only: f harvest_state.simps append_Nil)
  then obtain n where n: "?reqs = take n ?all"
    and a: "list_all (\<lambda>resp. returned_token resp \<noteq> []) (take (n - 1) rs)"
    by blast
  have "take (length (take n ?all)) ?all = take n ?all" by (rule take_length_take)
  then have 1: "?reqs = take (length ?reqs) ?all" by (simp only: n[symmetric])
  have "length ?reqs - 1 = min (n - 1) (length rs)"
    by (subst n) (cases n; simp)
  then have 2: "list_all (\<lambda>resp. returned_token resp \<noteq> []) (take (length ?reqs - 1) rs)"
    using a by (simp add: min_def split: if_splits)
  have 3: "oai_params mp ss (Some (c # t)) = [(''verb'', ''ListRecords''), (''resumptionToken'', c # t)]"
    "oai_params mp ss (Some []) = oai_params mp ss None"
    "oai_params mp ss None =
       [(''verb'', ''ListRecords''), (''metadataPrefix'', mp)]
         @ (if truthy ss then [(''set'', the ss)] else [])"
    by (simp_all add: oai_params_def truthy_def)
  from 1 2 3 show ?thesis by blast
qed

theorem harvest_requests_witness:
  "requests (final (harvest (ex_config None)
      [Content (Document (ex_page [ex_record [] [ex_dc [] []]] [ex_text '' cursor-1 ''])),
       Content (Document (ex_page [] [ex_text ''cursor-2''])),
       HTTPFailure,
       Content (Document (ex_page [] []))]))
   = [[(''verb'', ''ListRecords''), (''metadataPrefix'', ''oai_dc''), (''set'', ''diffusable'')],
      [(''verb'', ''ListRecords''), (''resumptionToken'', ''cursor-1'')],
      [(''verb'', ''ListRecords''), (''resumptionToken'', ''cursor-2'')]]"
proof -
  let ?rs = "[Content (Document (ex_page [ex_record [] [ex_dc [] []]] [ex_text '' cursor-1 ''])),
       Content (Document (ex_page [] [ex_text ''cursor-2''])),
       HTTPFailure,
       Content (Document (ex_page [] []))]"
  have l: "length (requests (final (harvest (ex_config None) ?rs))) = 3" by code_simp
  have t: "take 3
       (([(''verb'', ''ListRecords''), (''metadataPrefix'', metadata_prefix (ex_config None))]
           @ (if truthy (set_spec (ex_config None)) then [(''set'', the (set_spec (ex_config None)))] else []))
        # map (\<lambda>resp. [(''verb'', ''ListRecords''), (''resumptionToken'', returned_token resp)]) ?rs)
     = [[(''verb'', ''ListRecords''), (''metadataPrefix'', ''oai_dc''), (''set'', ''diffusable'')],
        [(''verb'', ''ListRecords''), (''resumptionToken'', ''cursor-1'')],
        [(''verb'', ''ListRecords''), (''resumptionToken'', ''cursor-2'')]]"
    by code_simp
  from conjunct1[OF harvest_requests[of "ex_config None" ?rs]]
  show ?thesis unfolding l t .
qed

end
